theory Spec2Isabelle
  imports Main
begin

section \<open>Strings and ordered maps of the host language\<close>

text \<open>
  A string is a list of characters.  A character stands for one UTF-16 code unit below
  256; the code units above (among them the Unicode spaces beyond U+00A0) are outside
  this model.  \<open>is_js_whitespace\<close> is the class that \<open>String.prototype.trim\<close> and the
  regular expression class \<open>\s\<close> strip, restricted to these code units: tab, line feed,
  vertical tab, form feed, carriage return, space and no-break space.
\<close>

definition is_js_whitespace :: "char \<Rightarrow> bool" where
  "is_js_whitespace c =
     (c = CHR 0x09 \<or> c = CHR 0x0A \<or> c = CHR 0x0B \<or> c = CHR 0x0C \<or> c = CHR 0x0D
      \<or> c = CHR 0x20 \<or> c = CHR 0xA0)"

definition trim :: "string \<Rightarrow> string" where
  "trim s = rev (dropWhile is_js_whitespace (rev (dropWhile is_js_whitespace s)))"

text \<open>\<open>Array.prototype.join\<close>: the elements with the separator between them.\<close>

fun join :: "string list \<Rightarrow> string \<Rightarrow> string" where
  "join [] sep = []"
| "join [x] sep = x"
| "join (x # y # xs) sep = x @ sep @ join (y # xs) sep"

text \<open>
  A \<open>Map<string, string>\<close> is an association list in insertion order.  \<open>Map_set\<close> keeps
  the position of a key that is already present and appends a new key at the end;
  \<open>Map_delete\<close> removes the key.  The same two operations model assignment to and
  \<open>delete\<close> of an own property of a plain object.
\<close>

fun Map_set :: "('k \<times> 'v) list \<Rightarrow> 'k \<Rightarrow> 'v \<Rightarrow> ('k \<times> 'v) list" where
  "Map_set [] k v = [(k, v)]"
| "Map_set ((k', v') # m) k v = (if k' = k then (k, v) # m else (k', v') # Map_set m k v)"

fun Map_delete :: "('k \<times> 'v) list \<Rightarrow> 'k \<Rightarrow> ('k \<times> 'v) list" where
  "Map_delete [] k = []"
| "Map_delete ((k', v') # m) k = (if k' = k then Map_delete m k else (k', v') # Map_delete m k)"

definition Map_has :: "('k \<times> 'v) list \<Rightarrow> 'k \<Rightarrow> bool" where
  "Map_has m k = (map_of m k \<noteq> None)"

section \<open>Syntax tree nodes\<close>

text \<open>
  A property value of an element is a string, an array of strings, a boolean, or
  \<open>null\<close>/\<open>undefined\<close> (\<open>PNull\<close>).  Number-valued properties are floating point and are
  not modelled.
\<close>

datatype PropertyValue = PString string | PArray "string list" | PBool bool | PNull

type_synonym Properties = "(string \<times> PropertyValue) list"

datatype ElementContent =
    ElementNode string Properties "ElementContent list"
  | TextNode string

record Element =
  tagName :: string
  properties :: "Properties option"
  children :: "ElementContent list"

text \<open>The properties of a node, \<open>node.properties || {}\<close>.\<close>

definition propertiesOf :: "Element \<Rightarrow> Properties" where
  "propertiesOf node = (case properties node of None \<Rightarrow> [] | Some ps \<Rightarrow> ps)"

text \<open>\<open>value?.toString()\<close>: \<open>None\<close> is \<open>undefined\<close>, the result on \<open>null\<close> and \<open>undefined\<close>.\<close>

fun toString :: "PropertyValue \<Rightarrow> string option" where
  "toString (PString s) = Some s"
| "toString (PArray xs) = Some (join xs '','')"
| "toString (PBool b) = Some (if b then ''true'' else ''false'')"
| "toString PNull = None"

section \<open>The functions of hast.ts\<close>

subsection \<open>setProperty\<close>

definition setProperty :: "Element \<Rightarrow> string \<Rightarrow> PropertyValue option \<Rightarrow> Element" where
  "setProperty node propertyName v =
     (let properties = propertiesOf node in
      node\<lparr>properties := Some (case v of
          Some x \<Rightarrow> Map_set properties propertyName x
        | None \<Rightarrow> Map_delete properties propertyName)\<rparr>)"

subsection \<open>The interface of the CSS library\<close>

text \<open>
  \<open>postcss.parse\<close> returns a root whose children are declarations, rules, at-rules and
  comments, or throws a \<open>CssSyntaxError\<close>.  \<open>getInlineStyles\<close> reads the type of each
  child of the root and, of a declaration, \<open>prop\<close> and \<open>value\<close>.
\<close>

datatype CssSyntaxError = CssSyntaxError

datatype ChildNode =
    Decl string string
  | Rule
  | AtRule
  | Comment

text \<open>
  \<open>new Declaration({prop, value, raws: {between: ':'}}).toString()\<close>: the stringifier
  writes the property, the raw \<open>between\<close> and the value.
\<close>

definition Declaration_toString :: "string \<Rightarrow> string \<Rightarrow> string" where
  "Declaration_toString prop val = prop @ '':'' @ val"

subsection \<open>getInlineStyles, setInlineStyles, setInlineStyle\<close>

text \<open>
  The functions take the CSS parser as their first argument \<open>parse\<close>, so that a property
  can be stated for every behaviour of the library as well as for the model of it below.
\<close>

definition styleStringOf :: "Element \<Rightarrow> string" where
  "styleStringOf node =
     (case properties node of
        None \<Rightarrow> []
      | Some ps \<Rightarrow>
          (case map_of ps ''style'' of
             None \<Rightarrow> []
           | Some v \<Rightarrow> (case toString v of None \<Rightarrow> [] | Some s \<Rightarrow> trim s)))"

definition rootDeclarations :: "ChildNode list \<Rightarrow> (string \<times> string) list" where
  "rootDeclarations nodes =
     foldl (\<lambda>styles node. case node of Decl p v \<Rightarrow> Map_set styles p v | _ \<Rightarrow> styles) [] nodes"

definition getInlineStyles ::
  "(string \<Rightarrow> CssSyntaxError + ChildNode list) \<Rightarrow> Element \<Rightarrow> (string \<times> string) list" where
  "getInlineStyles parse node =
     (let styleString = styleStringOf node in
      if styleString = [] then []
      else (case parse styleString of
              Inl error \<Rightarrow> []
            | Inr nodes \<Rightarrow> rootDeclarations nodes))"

definition serializeStyles :: "(string \<times> string) list \<Rightarrow> string" where
  "serializeStyles styles = join (map (\<lambda>(prop, val). Declaration_toString prop val) styles) '';''"

definition setInlineStyles :: "Element \<Rightarrow> (string \<times> string) list \<Rightarrow> Element" where
  "setInlineStyles node styles = setProperty node ''style'' (Some (PString (serializeStyles styles)))"

datatype ValueFormat = FormatRaw | FormatString

text \<open>
  \<open>serializeCssStringValue\<close> lives in a module of the package that is not part of the
  sources at hand; \<open>setInlineStyle\<close> takes it as the argument \<open>serializeCss\<close>.
\<close>

definition setInlineStyle ::
  "(string \<Rightarrow> CssSyntaxError + ChildNode list) \<Rightarrow> (string \<Rightarrow> string) \<Rightarrow>
   Element \<Rightarrow> string \<Rightarrow> string option \<Rightarrow> ValueFormat \<Rightarrow> Element" where
  "setInlineStyle parse serializeCss node cssProperty v valueFormat =
     (let styles = getInlineStyles parse node;
          styles' = (case v of
              Some x \<Rightarrow> Map_set styles cssProperty
                         (if valueFormat = FormatString then serializeCss x else x)
            | None \<Rightarrow> Map_delete styles cssProperty)
      in setInlineStyles node styles')"

section \<open>The CSS parser\<close>

text \<open>
  Modelled from the spec: \<open>postcss.parse\<close>, the CSS parser that \<open>getInlineStyles\<close> calls, is
  a dependency of the package and not among its sources.  The specification describes it
  as a declaration-list parser that splits the string at the semicolons of the top
  syntactic level (not inside quotes or parentheses), splits each declaration at its
  first colon into a trimmed property and value, and fails as a whole on a parse failure.
  The definitions below spell this out along the two passes of the library: a tokenizer
  that cuts the string into spaces, words, strings, bracket groups, comments, at-words
  and punctuation, and a parser that builds the children of the root from the tokens.
  Positions, raw whitespace and the \<open>important\<close> flag of a declaration are not kept: of a
  node only its type and, for a declaration, \<open>prop\<close> and \<open>value\<close> are. Every exception of
  the library is the one value \<open>CssSyntaxError\<close>.  Source-map annotations in comments
  are outside the model.
\<close>

subsection \<open>Tokenizer\<close>

datatype TokenType =
    Space | Word | String | Brackets | CommentToken | AtWord
  | OpenParen | CloseParen | OpenSquare | CloseSquare | OpenCurly | CloseCurly
  | Colon | Semicolon

type_synonym Token = "TokenType \<times> string"

definition emit :: "'a \<Rightarrow> 'e + 'a list \<Rightarrow> 'e + 'a list" where
  "emit x r = (case r of Inl e \<Rightarrow> Inl e | Inr xs \<Rightarrow> Inr (x # xs))"

definition is_css_space :: "char \<Rightarrow> bool" where
  "is_css_space c = (c = CHR 0x0A \<or> c = CHR 0x20 \<or> c = CHR 0x09 \<or> c = CHR 0x0D \<or> c = CHR 0x0C)"

definition is_at_end :: "char \<Rightarrow> bool" where
  "is_at_end c = (c \<in> set [CHR 0x09, CHR 0x0A, CHR 0x0C, CHR 0x0D, CHR 0x20, CHR 0x22, CHR ''#'',
      CHR 0x27, CHR ''('', CHR '')'', CHR ''/'', CHR '';'', CHR ''['', CHR 0x5C, CHR '']'',
      CHR ''{'', CHR ''}''])"

definition is_word_end_char :: "char \<Rightarrow> bool" where
  "is_word_end_char c = (c \<in> set [CHR 0x09, CHR 0x0A, CHR 0x0C, CHR 0x0D, CHR 0x20, CHR ''!'',
      CHR 0x22, CHR ''#'', CHR 0x27, CHR ''('', CHR '')'', CHR '':'', CHR '';'', CHR ''@'',
      CHR ''['', CHR 0x5C, CHR '']'', CHR ''{'', CHR ''}''])"

definition is_hex_digit :: "char \<Rightarrow> bool" where
  "is_hex_digit c = (c \<in> set ''0123456789abcdefABCDEF'')"

fun wordRest :: "string \<Rightarrow> string \<times> string" where
  "wordRest [] = ([], [])"
| "wordRest (c # cs) =
     (if is_word_end_char c \<or> (c = CHR ''/'' \<and> (case cs of d # _ \<Rightarrow> d = CHR ''*'' | [] \<Rightarrow> False))
      then ([], c # cs)
      else (case wordRest cs of (w, r) \<Rightarrow> (c # w, r)))"

fun closing :: "char \<Rightarrow> bool \<Rightarrow> string \<Rightarrow> (string \<times> string) option" where
  "closing q escaped [] = None"
| "closing q escaped (c # cs) =
     (if c = q \<and> \<not> escaped then Some ([c], cs)
      else (case closing q (c = CHR 0x5C \<and> \<not> escaped) cs of
              None \<Rightarrow> None
            | Some (a, r) \<Rightarrow> Some (c # a, r)))"

fun commentEnd :: "string \<Rightarrow> (string \<times> string) option" where
  "commentEnd [] = None"
| "commentEnd [c] = None"
| "commentEnd (c # d # cs) =
     (if c = CHR ''*'' \<and> d = CHR ''/'' then Some ([c, d], cs)
      else (case commentEnd (d # cs) of None \<Rightarrow> None | Some (a, r) \<Rightarrow> Some (c # a, r)))"


fun upTo :: "char \<Rightarrow> string \<Rightarrow> (string \<times> string) option" where
  "upTo q [] = None"
| "upTo q (c # cs) =
     (if c = q then Some ([c], cs)
      else (case upTo q cs of None \<Rightarrow> None | Some (a, r) \<Rightarrow> Some (c # a, r)))"

fun badBracket :: "string \<Rightarrow> bool" where
  "badBracket (x # y # cs) =
     ((x \<noteq> CHR 0x0A \<and> x \<noteq> CHR 0x0D
       \<and> y \<in> set [CHR 0x0D, CHR 0x0A, CHR 0x22, CHR 0x27, CHR ''('', CHR ''/'', CHR 0x5C])
      \<or> badBracket (y # cs))"
| "badBracket cs = False"

definition urlBracket :: "string list \<Rightarrow> string \<Rightarrow> bool" where
  "urlBracket buffer cs =
     ((case buffer of [] \<Rightarrow> False | prev # _ \<Rightarrow> prev = ''url'')
      \<and> (case cs of [] \<Rightarrow> True
          | n # _ \<Rightarrow> n \<noteq> CHR 0x27 \<and> n \<noteq> CHR 0x22 \<and> \<not> is_css_space n))"

definition escapeRest :: "string \<Rightarrow> string \<times> string" where
  "escapeRest cs =
     (let bs = takeWhile (\<lambda>c. c = CHR 0x5C) cs;
          r = dropWhile (\<lambda>c. c = CHR 0x5C) cs
      in if even (length bs)
            \<and> (case r of [] \<Rightarrow> True | code # _ \<Rightarrow> code \<noteq> CHR ''/'' \<and> \<not> is_css_space code)
         then (case r of
                 [] \<Rightarrow> (bs, [])
               | code # r1 \<Rightarrow>
                   if is_hex_digit code
                   then (let hs = takeWhile is_hex_digit r1; r2 = dropWhile is_hex_digit r1
                         in case r2 of
                              sp # r3 \<Rightarrow> if sp = CHR 0x20 then (bs @ code # hs @ [sp], r3)
                                           else (bs @ code # hs, r2)
                            | [] \<Rightarrow> (bs @ code # hs, []))
                   else (bs @ [code], r1))
         else (bs, r))"

lemma wordRest_length: "wordRest cs = (w, r) \<Longrightarrow> length r \<le> length cs"
  by (induction cs arbitrary: w r) (auto split: if_splits prod.splits)

lemma closing_length: "closing q e cs = Some (a, r) \<Longrightarrow> length r < length cs"
  by (induction cs arbitrary: a r e) (fastforce split: if_splits option.splits intro: less_SucI)+

lemma upTo_length: "upTo q cs = Some (a, r) \<Longrightarrow> length r < length cs"
  by (induction cs arbitrary: a r) (auto split: if_splits option.splits)

lemma commentEnd_length: "commentEnd cs = Some (a, r) \<Longrightarrow> length r < length cs"
  by (induction cs arbitrary: a r rule: commentEnd.induct) (auto split: if_splits option.splits)

lemma escapeRest_length:
  assumes "escapeRest cs = (a, r)"
  shows "length r \<le> length cs"
proof -
  let ?r = "dropWhile (\<lambda>c. c = CHR 0x5C) cs"
  have d: "length ?r \<le> length cs"
    by (rule length_dropWhile_le)
  have h: "length (dropWhile is_hex_digit xs) \<le> length xs" for xs
    by (rule length_dropWhile_le)
  from assms have "r = ?r \<or> r = [] \<or> (\<exists>code r1. ?r = code # r1 \<and>
      (r = r1 \<or> r = dropWhile is_hex_digit r1 \<or> (\<exists>sp. dropWhile is_hex_digit r1 = sp # r)))"
    unfolding escapeRest_def Let_def
    by (auto split: if_splits list.splits)
  then consider "r = ?r" | "r = []"
    | code r1 where "?r = code # r1" "r = r1"
    | code r1 where "?r = code # r1" "r = dropWhile is_hex_digit r1"
    | code r1 sp where "?r = code # r1" "dropWhile is_hex_digit r1 = sp # r"
    by blast
  then show ?thesis
  proof cases
    case 1
    with d show ?thesis by simp
  next
    case 2
    then show ?thesis by simp
  next
    case 3
    with d show ?thesis by simp
  next
    case 4
    with d h [of r1] show ?thesis by simp
  next
    case 5
    with d h [of r1] show ?thesis by simp
  qed
qed

lemma tokenize_decreases:
  "closing q e cs = Some x2 \<Longrightarrow> (x, y) = x2 \<Longrightarrow> length y < Suc (length cs)"
  "upTo q cs = Some x2 \<Longrightarrow> (x, y) = x2 \<Longrightarrow> length y < Suc (length cs)"
  "commentEnd (tl cs) = Some x2 \<Longrightarrow> (x, y) = x2 \<Longrightarrow> length y < Suc (length cs)"
  "(x, y) = escapeRest cs \<Longrightarrow> length y < Suc (length cs)"
  "(x, y) = wordRest cs \<Longrightarrow> length y < Suc (length cs)"
proof -
  show "closing q e cs = Some x2 \<Longrightarrow> (x, y) = x2 \<Longrightarrow> length y < Suc (length cs)"
    using closing_length [of q e cs x y] by simp
  show "upTo q cs = Some x2 \<Longrightarrow> (x, y) = x2 \<Longrightarrow> length y < Suc (length cs)"
    using upTo_length [of q cs x y] by simp
  show "commentEnd (tl cs) = Some x2 \<Longrightarrow> (x, y) = x2 \<Longrightarrow> length y < Suc (length cs)"
    using commentEnd_length [of "tl cs" x y] by (cases cs) auto
  show "(x, y) = escapeRest cs \<Longrightarrow> length y < Suc (length cs)"
    using escapeRest_length [of cs x y] by simp
  show "(x, y) = wordRest cs \<Longrightarrow> length y < Suc (length cs)"
    using wordRest_length [of cs x y] by simp
qed

function tokenize :: "string list \<Rightarrow> string \<Rightarrow> CssSyntaxError + Token list" where
  "tokenize buffer [] = Inr []"
| "tokenize buffer (c # cs) =
     (if is_css_space c then
        emit (Space, c # takeWhile is_css_space cs) (tokenize buffer (dropWhile is_css_space cs))
      else if c = CHR ''['' then emit (OpenSquare, [c]) (tokenize buffer cs)
      else if c = CHR '']'' then emit (CloseSquare, [c]) (tokenize buffer cs)
      else if c = CHR ''{'' then emit (OpenCurly, [c]) (tokenize buffer cs)
      else if c = CHR ''}'' then emit (CloseCurly, [c]) (tokenize buffer cs)
      else if c = CHR '':'' then emit (Colon, [c]) (tokenize buffer cs)
      else if c = CHR '';'' then emit (Semicolon, [c]) (tokenize buffer cs)
      else if c = CHR '')'' then emit (CloseParen, [c]) (tokenize buffer cs)
      else if c = CHR ''('' then
        (if urlBracket buffer cs then
           (case closing (CHR '')'') False cs of
              None \<Rightarrow> Inl CssSyntaxError
            | Some (a, r) \<Rightarrow> emit (Brackets, c # a) (tokenize (tl buffer) r))
         else
           (case upTo (CHR '')'') cs of
              None \<Rightarrow> emit (OpenParen, [c]) (tokenize (tl buffer) cs)
            | Some (a, r) \<Rightarrow>
                if badBracket (c # a) then emit (OpenParen, [c]) (tokenize (tl buffer) cs)
                else emit (Brackets, c # a) (tokenize (tl buffer) r)))
      else if c = CHR 0x27 \<or> c = CHR 0x22 then
        (case closing c False cs of
           None \<Rightarrow> Inl CssSyntaxError
         | Some (a, r) \<Rightarrow> emit (String, c # a) (tokenize buffer r))
      else if c = CHR ''@'' then
        emit (AtWord, c # takeWhile (\<lambda>x. \<not> is_at_end x) cs)
          (tokenize buffer (dropWhile (\<lambda>x. \<not> is_at_end x) cs))
      else if c = CHR 0x5C then
        (case escapeRest cs of (a, r) \<Rightarrow> emit (Word, c # a) (tokenize buffer r))
      else if c = CHR ''/'' \<and> (case cs of d # _ \<Rightarrow> d = CHR ''*'' | [] \<Rightarrow> False) then
        (case commentEnd (tl cs) of
           None \<Rightarrow> Inl CssSyntaxError
         | Some (a, r) \<Rightarrow> emit (CommentToken, c # CHR ''*'' # a) (tokenize buffer r))
      else
        (case wordRest cs of (w, r) \<Rightarrow> emit (Word, c # w) (tokenize ((c # w) # buffer) r)))"
  by pat_completeness auto
termination
proof (relation "measure (\<lambda>(b, cs). length cs)")
  show "wf (measure (\<lambda>(b, cs). length cs))" by simp
qed (simp_all add: le_imp_less_Suc length_dropWhile_le,
     (erule (1) tokenize_decreases(1) | erule (1) tokenize_decreases(2)
      | erule (1) tokenize_decreases(3) | erule tokenize_decreases(4)
      | erule tokenize_decreases(5))+)

subsection \<open>Parser\<close>

text \<open>
  The parser keeps the node under construction in \<open>current\<close>; here only the nesting depth
  of \<open>current\<close> below the root is kept, and a node is recorded when it is pushed at depth
  0, that is, as a child of the root.  \<open>tokenizer.back\<close> puts tokens back in front of
  the stream.
\<close>

definition isSpaceOrComment :: "Token \<Rightarrow> bool" where
  "isSpaceOrComment t = (fst t = Space \<or> fst t = CommentToken)"

datatype OtherResult =
    OtherDecl "Token list" "Token list"
  | OtherRule "Token list" "Token list"
  | OtherError

definition finishDecl :: "bool \<Rightarrow> Token list \<Rightarrow> Token list \<Rightarrow> OtherResult" where
  "finishDecl customProperty tokens stream =
     (if customProperty then OtherDecl tokens stream
      else OtherDecl (rev (dropWhile isSpaceOrComment (rev tokens)))
             (rev (takeWhile isSpaceOrComment (rev tokens)) @ stream))"

fun otherScan :: "bool \<Rightarrow> bool \<Rightarrow> TokenType list \<Rightarrow> Token list \<Rightarrow> Token list \<Rightarrow> OtherResult" where
  "otherScan customProperty colon brackets tokens [] =
     (if brackets \<noteq> [] then OtherError
      else if colon then finishDecl customProperty tokens []
      else OtherError)"
| "otherScan customProperty colon brackets tokens (t # ts) =
     (if fst t = OpenParen then
        otherScan customProperty colon (CloseParen # brackets) (tokens @ [t]) ts
      else if fst t = OpenSquare then
        otherScan customProperty colon (CloseSquare # brackets) (tokens @ [t]) ts
      else if customProperty \<and> colon \<and> fst t = OpenCurly then
        otherScan customProperty colon (CloseCurly # brackets) (tokens @ [t]) ts
      else if brackets = [] then
        (if fst t = Semicolon then
           (if colon then OtherDecl (tokens @ [t]) ts else OtherError)
         else if fst t = OpenCurly then OtherRule (tokens @ [t]) ts
         else if fst t = CloseCurly then
           (if colon then finishDecl customProperty tokens (t # ts) else OtherError)
         else if fst t = Colon then otherScan customProperty True brackets (tokens @ [t]) ts
         else otherScan customProperty colon brackets (tokens @ [t]) ts)
      else if fst t = hd brackets then
        otherScan customProperty colon (tl brackets) (tokens @ [t]) ts
      else otherScan customProperty colon brackets (tokens @ [t]) ts)"

definition startsWith :: "string \<Rightarrow> string \<Rightarrow> bool" where
  "startsWith s p = (take (length p) s = p)"

definition other :: "Token list \<Rightarrow> OtherResult" where
  "other stream =
     (case stream of
        [] \<Rightarrow> OtherError
      | start # _ \<Rightarrow> otherScan (startsWith (snd start) ''--'') False [] [] stream)"

definition char_between :: "char \<Rightarrow> char \<Rightarrow> char \<Rightarrow> bool" where
  "char_between lo hi c = ((of_char lo :: nat) \<le> of_char c \<and> (of_char c :: nat) \<le> of_char hi)"

text \<open>\<open>/\w/\<close>: a letter, a digit or the underscore.\<close>

definition is_word_char :: "char \<Rightarrow> bool" where
  "is_word_char c =
     (char_between (CHR ''a'') (CHR ''z'') c \<or> char_between (CHR ''A'') (CHR ''Z'') c
      \<or> char_between (CHR ''0'') (CHR ''9'') c \<or> c = CHR ''_'')"

fun betweenLoop :: "Token list \<Rightarrow> CssSyntaxError + Token list" where
  "betweenLoop [] = Inr []"
| "betweenLoop (t # ts) =
     (if fst t = Colon then Inr ts
      else if fst t = Word \<and> (\<exists>c \<in> set (snd t). is_word_char c) then Inl CssSyntaxError
      else betweenLoop ts)"

definition toLowerCase :: "string \<Rightarrow> string" where
  "toLowerCase s =
     map (\<lambda>c. if char_between (CHR ''A'') (CHR ''Z'') c then char_of (of_char c + (32::nat)) else c) s"

fun importantCache :: "nat \<Rightarrow> Token list \<Rightarrow> string \<Rightarrow> Token list \<times> string" where
  "importantCache 0 cache str = (cache, str)"
| "importantCache (Suc j) cache str =
     (if startsWith (trim str) ''!''
         \<and> (case drop (Suc j) cache of [] \<Rightarrow> True | t # _ \<Rightarrow> fst t \<noteq> Space)
      then (cache, str)
      else importantCache j (butlast cache) (snd (last cache) @ str))"

definition importantLoop :: "Token list \<Rightarrow> Token list" where
  "importantLoop tokens =
     (let trailing = takeWhile isSpaceOrComment (rev tokens);
          i = length tokens - length trailing - 1
      in case dropWhile isSpaceOrComment (rev tokens) of
           [] \<Rightarrow> tokens
         | token # _ \<Rightarrow>
             if toLowerCase (snd token) = ''!important'' then
               rev (dropWhile (\<lambda>t. fst t = Space) (rev (take i tokens)))
             else if toLowerCase (snd token) = ''important'' then
               (case importantCache i tokens [] of
                  (cache, str) \<Rightarrow> if startsWith (trim str) ''!'' then cache else tokens)
             else tokens)"

fun rawValue :: "bool \<Rightarrow> TokenType option \<Rightarrow> string \<Rightarrow> Token list \<Rightarrow> string" where
  "rawValue customProperty prev val [] = val"
| "rawValue customProperty prev val (t # ts) =
     (if fst t = Space \<and> ts = [] \<and> \<not> customProperty then val
      else if fst t = CommentToken then
        (if (prev \<noteq> None \<and> prev \<noteq> Some Space)
            \<and> (case ts of [] \<Rightarrow> False | n # _ \<Rightarrow> fst n \<noteq> Space)
         then (if val \<noteq> [] \<and> last val = CHR '',''
               then rawValue customProperty (Some (fst t)) val ts
               else rawValue customProperty (Some (fst t)) (val @ snd t) ts)
         else rawValue customProperty (Some (fst t)) val ts)
      else rawValue customProperty (Some (fst t)) (val @ snd t) ts)"

fun missedColon :: "int \<Rightarrow> Token option \<Rightarrow> Token list \<Rightarrow> bool" where
  "missedColon brackets prev [] = False"
| "missedColon brackets prev (t # ts) =
     (let b = (if fst t = OpenParen then brackets + 1
               else if fst t = CloseParen then brackets - 1 else brackets)
      in if b = 0 \<and> fst t = Colon then
           (case prev of
              None \<Rightarrow> True
            | Some p \<Rightarrow> if p = (Word, ''progid'') then missedColon b prev ts else True)
         else missedColon b (Some t) ts)"

definition decl :: "Token list \<Rightarrow> bool \<Rightarrow> CssSyntaxError + ChildNode" where
  "decl tokens0 customProperty =
     (let tokens1 = (if tokens0 \<noteq> [] \<and> fst (last tokens0) = Semicolon then butlast tokens0 else tokens0);
          tokens2 = dropWhile (\<lambda>t. fst t \<noteq> Word) tokens1
      in if tokens2 = [] then Inl CssSyntaxError
         else
           (let isPropEnd = (\<lambda>t. fst t = Colon \<or> fst t = Space \<or> fst t = CommentToken);
                prop0 = concat (map snd (takeWhile (\<lambda>t. \<not> isPropEnd t) tokens2))
            in case betweenLoop (dropWhile (\<lambda>t. \<not> isPropEnd t) tokens2) of
                 Inl e \<Rightarrow> Inl e
               | Inr tokens3 \<Rightarrow>
                   (let prop = (case prop0 of
                                  [] \<Rightarrow> []
                                | c # cs \<Rightarrow> if c = CHR ''_'' \<or> c = CHR ''*'' then cs else prop0);
                        firstSpaces = takeWhile isSpaceOrComment tokens3;
                        tokens4 = importantLoop (dropWhile isSpaceOrComment tokens3);
                        hasWord = (\<exists>t \<in> set tokens4. \<not> isSpaceOrComment t);
                        val = rawValue customProperty None []
                                ((if hasWord then [] else firstSpaces) @ tokens4)
                    in if CHR '':'' \<in> set val \<and> \<not> customProperty \<and> missedColon 0 None tokens4
                       then Inl CssSyntaxError
                       else Inr (Decl prop val))))"

datatype AtRuleEnd = AtSemicolon | AtOpen | AtClose | AtLast

fun atruleScan :: "TokenType list \<Rightarrow> Token list \<Rightarrow> AtRuleEnd \<times> Token list" where
  "atruleScan brackets [] = (AtLast, [])"
| "atruleScan brackets (t # ts) =
     (let brackets' =
        (if fst t = OpenParen then CloseParen # brackets
         else if fst t = OpenSquare then CloseSquare # brackets
         else if fst t = OpenCurly \<and> brackets \<noteq> [] then CloseCurly # brackets
         else if brackets \<noteq> [] \<and> fst t = hd brackets then tl brackets
         else brackets)
      in if brackets' = [] \<and> fst t = Semicolon then (AtSemicolon, ts)
         else if brackets' = [] \<and> fst t = OpenCurly then (AtOpen, ts)
         else if brackets' = [] \<and> fst t = CloseCurly then (AtClose, ts)
         else atruleScan brackets' ts)"

definition push :: "nat \<Rightarrow> ChildNode \<Rightarrow> CssSyntaxError + ChildNode list \<Rightarrow> CssSyntaxError + ChildNode list" where
  "push depth node r = (if depth = 0 then emit node r else r)"

lemma atruleScan_length: "length (snd (atruleScan br ts)) \<le> length ts"
  by (induction ts arbitrary: br) (simp_all add: Let_def le_SucI)

lemma finishDecl_length:
  assumes "finishDecl cp tokens stream = OtherDecl d r \<or> finishDecl cp tokens stream = OtherRule d r"
  shows "length d + length r = length tokens + length stream"
proof -
  have "length (dropWhile isSpaceOrComment (rev tokens)) + length (takeWhile isSpaceOrComment (rev tokens))
        = length tokens"
    by (metis add.commute length_append length_rev takeWhile_dropWhile_id)
  with assms show ?thesis
    by (auto simp: finishDecl_def split: if_splits)
qed

lemma otherScan_length:
  assumes "otherScan cp colon br tokens stream = OtherDecl d r
           \<or> otherScan cp colon br tokens stream = OtherRule d r"
  shows "length d + length r = length tokens + length stream"
  using assms
proof (induction stream arbitrary: cp colon br tokens)
  case Nil
  then show ?case
    using finishDecl_length [of cp tokens "[]" d r] by (simp split: if_splits)
next
  case (Cons t ts)
  have step: "length d + length r = Suc (length tokens + length ts)"
    if "otherScan cp' colon' br' (tokens @ [t]) ts = OtherDecl d r
        \<or> otherScan cp' colon' br' (tokens @ [t]) ts = OtherRule d r" for cp' colon' br'
    using Cons.IH [OF that] by simp
  have fin: "length d + length r = Suc (length tokens + length ts)"
    if "finishDecl cp tokens (t # ts) = OtherDecl d r
        \<or> finishDecl cp tokens (t # ts) = OtherRule d r"
    using finishDecl_length [OF that] by simp
  from Cons.prems show ?case
    unfolding otherScan.simps
    apply (simp split: if_splits)
    apply (erule step | erule fin | clarsimp)+
    done
qed


lemma finishDecl_not_rule [simp]: "finishDecl cp tokens stream \<noteq> OtherRule d r"
  by (simp add: finishDecl_def)

lemma finishDecl_nonempty:
  assumes "finishDecl cp tokens stream = OtherDecl d r" and "tokens \<noteq> []"
    and "\<not> isSpaceOrComment (hd tokens)"
  shows "d \<noteq> []"
proof -
  have "dropWhile isSpaceOrComment (rev tokens) \<noteq> []"
    using assms(2,3) by (cases tokens) (auto simp: dropWhile_append)
  then show ?thesis
    using assms(1) by (auto simp: finishDecl_def split: if_splits)
qed

lemma otherScan_nonempty:
  assumes "otherScan cp colon br tokens stream = OtherDecl d r
           \<or> otherScan cp colon br tokens stream = OtherRule d r"
    and "tokens @ stream \<noteq> []"
    and "\<not> isSpaceOrComment (hd (tokens @ stream))"
    and "fst (hd (tokens @ stream)) \<noteq> CloseCurly"
  shows "d \<noteq> []"
  using assms
proof (induction stream arbitrary: cp colon br tokens)
  case Nil
  then show ?case
    using finishDecl_nonempty [of cp tokens "[]" d r] by (simp split: if_splits)
next
  case (Cons t ts)
  have hd_eq: "hd ((tokens @ [t]) @ ts) = hd (tokens @ t # ts)"
    by simp
  have step: "d \<noteq> []"
    if "otherScan cp' colon' br' (tokens @ [t]) ts = OtherDecl d r
        \<or> otherScan cp' colon' br' (tokens @ [t]) ts = OtherRule d r" for cp' colon' br'
    using Cons.IH [OF that] Cons.prems(3,4) unfolding hd_eq by simp
  have fin: "d \<noteq> []"
    if "finishDecl cp' tokens (t # ts) = OtherDecl d r" "fst t = CloseCurly" for cp'
  proof -
    from that(2) Cons.prems(4) have "tokens \<noteq> []"
      by auto
    moreover from this Cons.prems(3) have "\<not> isSpaceOrComment (hd tokens)"
      by simp
    ultimately show ?thesis
      using finishDecl_nonempty [OF that(1)] by simp
  qed
  from Cons.prems(1) show ?case
    unfolding otherScan.simps
    apply (simp split: if_splits)
    apply (erule step | erule (1) fin | clarsimp)+
    done
qed

lemma other_shorter:
  assumes "other (t # ts) = OtherDecl d r \<or> other (t # ts) = OtherRule d r"
    and "fst t \<noteq> Space" and "fst t \<noteq> CommentToken" and "fst t \<noteq> CloseCurly"
  shows "length r < Suc (length ts)"
proof -
  let ?cp = "startsWith (snd t) ''--''"
  from assms(1) have scan: "otherScan ?cp False [] [] (t # ts) = OtherDecl d r
      \<or> otherScan ?cp False [] [] (t # ts) = OtherRule d r"
    by (simp add: other_def)
  have "d \<noteq> []"
    using otherScan_nonempty [OF scan] assms(2-4) by (simp add: isSpaceOrComment_def)
  moreover have "length d + length r = length (t # ts)"
    using otherScan_length [OF scan] by simp
  ultimately show ?thesis
    by (cases d) auto
qed

lemma parseLoop_decreases:
  "(k, y) = atruleScan br ts \<Longrightarrow> length y < Suc (length ts)"
  "other (t # ts) = OtherDecl d r \<Longrightarrow> fst t \<noteq> Space \<Longrightarrow> fst t \<noteq> CommentToken
   \<Longrightarrow> fst t \<noteq> CloseCurly \<Longrightarrow> length r < Suc (length ts)"
  "other (t # ts) = OtherRule d r \<Longrightarrow> fst t \<noteq> Space \<Longrightarrow> fst t \<noteq> CommentToken
   \<Longrightarrow> fst t \<noteq> CloseCurly \<Longrightarrow> length r < Suc (length ts)"
proof -
  show "(k, y) = atruleScan br ts \<Longrightarrow> length y < Suc (length ts)"
    using atruleScan_length [of br ts] by (metis le_imp_less_Suc snd_conv)
  show "other (t # ts) = OtherDecl d r \<Longrightarrow> fst t \<noteq> Space \<Longrightarrow> fst t \<noteq> CommentToken
   \<Longrightarrow> fst t \<noteq> CloseCurly \<Longrightarrow> length r < Suc (length ts)"
    using other_shorter [of t ts d r] by simp
  show "other (t # ts) = OtherRule d r \<Longrightarrow> fst t \<noteq> Space \<Longrightarrow> fst t \<noteq> CommentToken
   \<Longrightarrow> fst t \<noteq> CloseCurly \<Longrightarrow> length r < Suc (length ts)"
    using other_shorter [of t ts d r] by simp
qed

function parseLoop :: "nat \<Rightarrow> Token list \<Rightarrow> CssSyntaxError + ChildNode list" where
  "parseLoop depth [] = (if depth = 0 then Inr [] else Inl CssSyntaxError)"
| "parseLoop depth (t # ts) =
     (if fst t = Space then parseLoop depth ts
      else if fst t = Semicolon then parseLoop depth ts
      else if fst t = CloseCurly then
        (if depth = 0 then Inl CssSyntaxError else parseLoop (depth - 1) ts)
      else if fst t = CommentToken then push depth Comment (parseLoop depth ts)
      else if fst t = AtWord then
        (if tl (snd t) = [] then Inl CssSyntaxError
         else
           (case atruleScan [] ts of
              (AtSemicolon, r) \<Rightarrow> push depth AtRule (parseLoop depth r)
            | (AtOpen, r) \<Rightarrow> push depth AtRule (parseLoop (Suc depth) r)
            | (AtClose, r) \<Rightarrow>
                if depth = 0 then Inl CssSyntaxError
                else push depth AtRule (parseLoop (depth - 1) r)
            | (AtLast, r) \<Rightarrow> push depth AtRule (parseLoop depth r)))
      else if fst t = OpenCurly then push depth Rule (parseLoop (Suc depth) ts)
      else
        (case other (t # ts) of
           OtherError \<Rightarrow> Inl CssSyntaxError
         | OtherRule tokens r \<Rightarrow> push depth Rule (parseLoop (Suc depth) r)
         | OtherDecl tokens r \<Rightarrow>
             (case decl tokens (startsWith (snd t) ''--'') of
                Inl e \<Rightarrow> Inl e
              | Inr node \<Rightarrow> push depth node (parseLoop depth r))))"
  by pat_completeness auto
termination
proof (relation "measure (\<lambda>(d, ts). length ts)")
  show "wf (measure (\<lambda>(d, ts). length ts))" by simp
qed (simp_all,
     (erule parseLoop_decreases(1) | (erule parseLoop_decreases(2), assumption+)
      | (erule parseLoop_decreases(3), assumption+))+)

definition postcss_parse :: "string \<Rightarrow> CssSyntaxError + ChildNode list" where
  "postcss_parse css = (case tokenize [] css of Inl e \<Rightarrow> Inl e | Inr tokens \<Rightarrow> parseLoop 0 tokens)"


section \<open>Plain style maps\<close>

text \<open>
  The declarations on which writing a style map and reading it back is studied.  A plain
  character is neither whitespace nor one of the characters at which the tokenizer ends a
  word, nor a slash.  A plain property name is a non-empty word of plain characters that
  does not start with an underscore or an asterisk (the parser strips these as browser
  hacks); a plain value is empty or a non-empty word of plain characters.
  \<open>declTokens\<close> and \<open>stylesTokens\<close> are the tokens of one serialized declaration and
  of a serialized map.
\<close>

definition plainChar :: "char \<Rightarrow> bool" where
  "plainChar c = (\<not> is_word_end_char c \<and> c \<noteq> CHR ''/'' \<and> \<not> is_js_whitespace c)"

definition plainWord :: "string \<Rightarrow> bool" where
  "plainWord w = (w \<noteq> [] \<and> list_all plainChar w)"

definition plainProperty :: "string \<Rightarrow> bool" where
  "plainProperty p = (plainWord p \<and> hd p \<noteq> CHR ''_'' \<and> hd p \<noteq> CHR ''*'')"

definition plainValue :: "string \<Rightarrow> bool" where
  "plainValue v = (v = [] \<or> plainWord v)"

definition plainStyles :: "(string \<times> string) list \<Rightarrow> bool" where
  "plainStyles m = (distinct (map fst m) \<and> list_all (\<lambda>(p, v). plainProperty p \<and> plainValue v) m)"

definition declTokens :: "string \<Rightarrow> string \<Rightarrow> Token list" where
  "declTokens p v = (Word, p) # (Colon, '':'') # (if v = [] then [] else [(Word, v)])"

fun stylesTokens :: "(string \<times> string) list \<Rightarrow> Token list" where
  "stylesTokens [] = []"
| "stylesTokens [(p, v)] = declTokens p v"
| "stylesTokens ((p, v) # y # m) = declTokens p v @ (Semicolon, '';'') # stylesTokens (y # m)"

definition trimmed :: "string \<Rightarrow> bool" where
  "trimmed s = (s \<noteq> [] \<and> \<not> is_js_whitespace (hd s) \<and> \<not> is_js_whitespace (last s))"

definition declarationList :: "string list \<Rightarrow> string" where
  "declarationList declarations = join declarations '';''"

section \<open>Properties of the ordered map\<close>

lemma map_of_Map_set: "map_of (Map_set m k v) = (map_of m)(k \<mapsto> v)"
  by (induction m) (auto simp: fun_eq_iff)

lemma map_of_Map_delete: "map_of (Map_delete m k) = (map_of m)(k := None)"
  by (induction m) (auto simp: fun_eq_iff)

lemma filter_Map_set_other:
  "filter (\<lambda>kv. fst kv \<noteq> k) (Map_set m k v) = filter (\<lambda>kv. fst kv \<noteq> k) m"
  by (induction m) auto

lemma filter_Map_delete_other:
  "filter (\<lambda>kv. fst kv \<noteq> k) (Map_delete m k) = filter (\<lambda>kv. fst kv \<noteq> k) m"
  by (induction m) auto

section \<open>Properties of the style functions\<close>

lemma trim_whitespace_only:
  assumes "\<forall>c \<in> set s. is_js_whitespace c"
  shows "trim s = []"
proof -
  from assms have d: "dropWhile is_js_whitespace s = []" by simp
  show ?thesis unfolding trim_def d by simp
qed

text \<open>
  C9.  A node without properties, without a \<open>style\<close> property, or whose \<open>style\<close> is a
  string of whitespace only (the empty string included) has the empty style map,
  whatever the parser would do: the parser is not consulted.
\<close>

theorem getInlineStyles_no_style:
  assumes "properties node = None
           \<or> (\<exists>ps. properties node = Some ps \<and> map_of ps ''style'' = None)
           \<or> (\<exists>ps s. properties node = Some ps \<and> map_of ps ''style'' = Some (PString s)
                  \<and> (\<forall>c \<in> set s. is_js_whitespace c))"
  shows "\<forall>parse. getInlineStyles parse node = []"
  using assms
  by (auto simp: getInlineStyles_def styleStringOf_def trim_whitespace_only)

theorem getInlineStyles_no_style_witness:
  "(\<forall>parse. getInlineStyles parse \<lparr>tagName = ''div'', properties = None, children = []\<rparr> = [])
   \<and> (\<forall>parse. getInlineStyles parse
         \<lparr>tagName = ''div'', properties = Some [(''id'', PString ''x'')], children = []\<rparr> = [])
   \<and> (\<forall>parse. getInlineStyles parse
         \<lparr>tagName = ''div'', properties = Some [(''style'', PString [CHR 0x20, CHR 0x09, CHR 0x0A])],
          children = []\<rparr> = [])"
proof -
  let ?a = "\<lparr>tagName = ''div'', properties = None, children = []\<rparr>"
  let ?b = "\<lparr>tagName = ''div'', properties = Some [(''id'', PString ''x'')], children = []\<rparr>"
  let ?c = "\<lparr>tagName = ''div'',
             properties = Some [(''style'', PString [CHR 0x20, CHR 0x09, CHR 0x0A])], children = []\<rparr>"
  have a: "\<forall>parse. getInlineStyles parse ?a = []"
    using getInlineStyles_no_style [of ?a] by simp
  have b: "\<forall>parse. getInlineStyles parse ?b = []"
    using getInlineStyles_no_style [of ?b] by simp
  have c: "\<forall>parse. getInlineStyles parse ?c = []"
    using getInlineStyles_no_style [of ?c] by (simp add: is_js_whitespace_def)
  from a b c show ?thesis by blast
qed

text \<open>
  C10.  \<open>setInlineStyle\<close> leaves the tag name and the children of the node as they are, and
  of its properties it touches the key \<open>style\<close> only: the other entries keep their
  values and their order.  This holds for every parser, every serializer of string
  values, every value (\<open>None\<close> is \<open>null\<close>) and both formats.
\<close>

theorem setInlineStyle_frame:
  "tagName (setInlineStyle parse serializeCss node cssProperty v valueFormat) = tagName node
   \<and> children (setInlineStyle parse serializeCss node cssProperty v valueFormat) = children node
   \<and> filter (\<lambda>kv. fst kv \<noteq> ''style'')
        (propertiesOf (setInlineStyle parse serializeCss node cssProperty v valueFormat))
     = filter (\<lambda>kv. fst kv \<noteq> ''style'') (propertiesOf node)"
  by (simp add: setInlineStyle_def setInlineStyles_def setProperty_def Let_def propertiesOf_def
      filter_Map_set_other)

section \<open>Properties of the CSS parser on plain declarations\<close>

lemma wordRest_plain:
  assumes "list_all plainChar w" and "rest = [] \<or> is_word_end_char (hd rest)"
  shows "wordRest (w @ rest) = (w, rest)"
  using assms
proof (induction w)
  case Nil
  then show ?case by (cases rest) auto
next
  case (Cons c w)
  then show ?case by (simp add: plainChar_def)
qed

lemma plainChar_not_special:
  assumes "plainChar c"
  shows "\<not> is_css_space c" "c \<noteq> CHR ''[''" "c \<noteq> CHR '']''" "c \<noteq> CHR ''{''" "c \<noteq> CHR ''}''"
    "c \<noteq> CHR '':''" "c \<noteq> CHR '';''" "c \<noteq> CHR '')''" "c \<noteq> CHR ''(''" "c \<noteq> CHR 0x27"
    "c \<noteq> CHR 0x22" "c \<noteq> CHR ''@''" "c \<noteq> CHR 0x5C" "c \<noteq> CHR ''/''" "c \<noteq> CHR ''!''"
  using assms by (auto simp: plainChar_def is_word_end_char_def is_css_space_def)

lemma tokenize_plainWord:
  assumes "plainWord w" and "rest = [] \<or> is_word_end_char (hd rest)"
  shows "tokenize buffer (w @ rest) = emit (Word, w) (tokenize (w # buffer) rest)"
proof -
  from assms(1) obtain c w' where w: "w = c # w'" and c: "plainChar c" and w': "list_all plainChar w'"
    by (cases w) (auto simp: plainWord_def)
  have rest: "wordRest (w' @ rest) = (w', rest)"
    using wordRest_plain [OF w' assms(2)] .
  show ?thesis
    unfolding w using plainChar_not_special [OF c] rest by simp
qed

lemma emit_Inr [simp]: "emit x (Inr xs) = Inr (x # xs)"
  by (simp add: emit_def)

lemma emit_Inl [simp]: "emit x (Inl e) = Inl e"
  by (simp add: emit_def)

lemma tokenize_punctuation:
  "tokenize buffer (CHR '':'' # rest) = emit (Colon, '':'') (tokenize buffer rest)"
  "tokenize buffer (CHR '';'' # rest) = emit (Semicolon, '';'') (tokenize buffer rest)"
  by (simp_all add: is_css_space_def)

declare tokenize.simps(2) [simp del]

lemma tokenize_declaration:
  assumes "plainProperty p" and "plainValue v" and "rest = [] \<or> hd rest = CHR '';''"
  shows "\<exists>buffer'. tokenize buffer (Declaration_toString p v @ rest)
           = foldr emit (declTokens p v) (tokenize buffer' rest)"
proof -
  have p: "tokenize buffer (p @ CHR '':'' # v @ rest)
           = emit (Word, p) (emit (Colon, '':'') (tokenize (p # buffer) (v @ rest)))"
    using tokenize_plainWord [of p "CHR '':'' # v @ rest" buffer] assms(1)
    by (simp add: plainProperty_def is_word_end_char_def tokenize_punctuation)
  show ?thesis
  proof (cases "v = []")
    case True
    with p show ?thesis
      by (auto simp: Declaration_toString_def declTokens_def)
  next
    case False
    with assms(2) have "plainWord v"
      by (simp add: plainValue_def)
    moreover from assms(3) have "rest = [] \<or> is_word_end_char (hd rest)"
      by (auto simp: is_word_end_char_def)
    ultimately have "tokenize (p # buffer) (v @ rest) = emit (Word, v) (tokenize (v # p # buffer) rest)"
      by (rule tokenize_plainWord)
    with p False show ?thesis
      by (auto simp: Declaration_toString_def declTokens_def)
  qed
qed

lemma foldr_emit_Inr [simp]: "foldr emit ts (Inr xs) = Inr (ts @ xs)"
  by (induction ts) simp_all

lemma foldr_emit_Inl [simp]: "foldr emit ts (Inl e) = Inl e"
  by (induction ts) simp_all

lemma tokenize_serializeStyles:
  assumes "list_all (\<lambda>(p, v). plainProperty p \<and> plainValue v) m"
  shows "tokenize buffer (serializeStyles m) = Inr (stylesTokens m)"
  using assms
proof (induction m arbitrary: buffer rule: stylesTokens.induct)
  case 1
  show ?case by (simp add: serializeStyles_def)
next
  case (2 p v)
  then obtain buffer' where "tokenize buffer (Declaration_toString p v @ [])
      = foldr emit (declTokens p v) (tokenize buffer' [])"
    using tokenize_declaration [of p v "[]" buffer] by auto
  then show ?case
    by (simp add: serializeStyles_def)
next
  case (3 p v y m)
  let ?rest = "serializeStyles (y # m)"
  from 3 obtain buffer' where "tokenize buffer (Declaration_toString p v @ CHR '';'' # ?rest)
      = foldr emit (declTokens p v) (tokenize buffer' (CHR '';'' # ?rest))"
    using tokenize_declaration [of p v "CHR '';'' # ?rest" buffer] by auto
  moreover have "tokenize buffer' ?rest = Inr (stylesTokens (y # m))"
    using 3 by simp
  ultimately show ?case
    by (simp add: serializeStyles_def tokenize_punctuation)
qed

lemma other_declaration:
  "other (declTokens p v @ (Semicolon, s) # rest) = OtherDecl (declTokens p v @ [(Semicolon, s)]) rest"
  "other (declTokens p v) = OtherDecl (declTokens p v) []"
  by (simp_all add: other_def declTokens_def finishDecl_def isSpaceOrComment_def)

lemma toLowerCase_important:
  assumes "toLowerCase v = ''!important''"
  shows "CHR ''!'' \<in> set v"
proof -
  have nonempty: "v \<noteq> []"
  proof
    assume "v = []"
    with assms show False by (simp add: toLowerCase_def)
  qed
  from assms have "hd (toLowerCase v) = CHR ''!''"
    by simp
  with nonempty have first:
    "(if char_between (CHR ''A'') (CHR ''Z'') (hd v) then char_of (of_char (hd v) + (32::nat)) else hd v)
      = CHR ''!''"
    by (simp add: toLowerCase_def hd_map)
  have "char_of (of_char (hd v) + (32::nat)) \<noteq> CHR ''!''"
    if "char_between (CHR ''A'') (CHR ''Z'') (hd v)"
  proof
    assume "char_of (of_char (hd v) + (32::nat)) = CHR ''!''"
    then have "(of_char (char_of (of_char (hd v) + (32::nat))) :: nat) = of_char (CHR ''!'')"
      by (rule arg_cong)
    then have m: "(of_char (hd v) + (32::nat)) mod 256 = 33"
      by (simp only: of_char_of) simp
    from that have range: "(65::nat) \<le> of_char (hd v)" "(of_char (hd v) :: nat) \<le> 90"
      by (simp_all add: char_between_def)
    from range(2) have "(of_char (hd v) + (32::nat)) mod 256 = of_char (hd v) + 32"
      by (intro mod_less) linarith
    with m range(1) show False by linarith
  qed
  with first have "hd v = CHR ''!''"
    by (simp split: if_splits)
  with nonempty show ?thesis
    by (metis hd_in_set)
qed

lemma plainWord_no_special:
  assumes "plainWord v"
  shows "CHR ''!'' \<notin> set v" "CHR '':'' \<notin> set v"
  using assms
  by (auto simp: plainWord_def list_all_iff plainChar_def is_word_end_char_def)

lemma importantLoop_plain:
  assumes "plainWord v"
  shows "importantLoop [(Word, v)] = [(Word, v)]"
proof -
  have "toLowerCase v \<noteq> ''!important''"
    using plainWord_no_special(1) [OF assms] toLowerCase_important [of v] by blast
  moreover have "importantCache 0 [(Word, v)] [] = ([(Word, v)], [])"
    by simp
  moreover have "\<not> startsWith (trim []) ''!''"
    by (simp add: startsWith_def trim_def)
  ultimately show ?thesis
    by (simp add: importantLoop_def isSpaceOrComment_def Let_def)
qed

lemma decl_plain:
  assumes "plainProperty p" and "plainValue v"
  shows "decl (declTokens p v @ [(Semicolon, s)]) cp = Inr (Decl p v)"
    and "decl (declTokens p v) cp = Inr (Decl p v)"
proof -
  from assms(1) obtain c cs where p: "p = c # cs" "c \<noteq> CHR ''_''" "c \<noteq> CHR ''*''"
    by (cases p) (auto simp: plainProperty_def plainWord_def)
  have empty: "importantLoop [] = []"
    by (simp add: importantLoop_def)
  show "decl (declTokens p v @ [(Semicolon, s)]) cp = Inr (Decl p v)"
  proof (cases "v = []")
    case True
    then show ?thesis
      using p by (simp add: decl_def declTokens_def isSpaceOrComment_def empty)
  next
    case False
    with assms(2) have v: "plainWord v" by (simp add: plainValue_def)
    show ?thesis
      using p False importantLoop_plain [OF v] plainWord_no_special(2) [OF v]
      by (simp add: decl_def declTokens_def isSpaceOrComment_def)
  qed
  show "decl (declTokens p v) cp = Inr (Decl p v)"
  proof (cases "v = []")
    case True
    then show ?thesis
      using p by (simp add: decl_def declTokens_def isSpaceOrComment_def empty)
  next
    case False
    with assms(2) have v: "plainWord v" by (simp add: plainValue_def)
    show ?thesis
      using p False importantLoop_plain [OF v] plainWord_no_special(2) [OF v]
      by (simp add: decl_def declTokens_def isSpaceOrComment_def)
  qed
qed

lemma push_root [simp]: "push 0 node r = emit node r"
  by (simp add: push_def)

lemma declTokens_append: "declTokens p v @ ts = (Word, p) # (tl (declTokens p v) @ ts)"
  by (simp add: declTokens_def)

lemma parseLoop_other_decl:
  assumes "other ((Word, p) # ts) = OtherDecl tokens r"
    and "decl tokens (startsWith p ''--'') = Inr node"
  shows "parseLoop 0 ((Word, p) # ts) = emit node (parseLoop 0 r)"
  using assms by simp

lemma parseLoop_declaration:
  assumes "plainProperty p" and "plainValue v"
  shows "parseLoop 0 (declTokens p v @ (Semicolon, s) # rest) = emit (Decl p v) (parseLoop 0 rest)"
    and "parseLoop 0 (declTokens p v) = Inr [Decl p v]"
proof -
  have "parseLoop 0 ((Word, p) # (tl (declTokens p v) @ (Semicolon, s) # rest))
        = emit (Decl p v) (parseLoop 0 rest)"
    using other_declaration(1) [of p v s rest, unfolded declTokens_append]
      decl_plain(1) [OF assms, of s "startsWith p ''--''", unfolded declTokens_append]
    by (rule parseLoop_other_decl)
  then show "parseLoop 0 (declTokens p v @ (Semicolon, s) # rest) = emit (Decl p v) (parseLoop 0 rest)"
    by (simp only: declTokens_append)
  have start: "(Word, p) # tl (declTokens p v) = declTokens p v"
    by (simp add: declTokens_def)
  have "other ((Word, p) # tl (declTokens p v)) = OtherDecl (declTokens p v) []"
    using other_declaration(2) [of p v] by (simp only: start)
  then have "parseLoop 0 ((Word, p) # tl (declTokens p v)) = emit (Decl p v) (parseLoop 0 [])"
    using decl_plain(2) [OF assms, of "startsWith p ''--''"]
    by (rule parseLoop_other_decl)
  then show "parseLoop 0 (declTokens p v) = Inr [Decl p v]"
    by (simp only: start parseLoop.simps(1) emit_Inr if_True refl)
qed

declare parseLoop.simps(2) [simp del]

lemma parseLoop_stylesTokens:
  assumes "list_all (\<lambda>(p, v). plainProperty p \<and> plainValue v) m"
  shows "parseLoop 0 (stylesTokens m) = Inr (map (\<lambda>(p, v). Decl p v) m)"
  using assms
proof (induction m rule: stylesTokens.induct)
  case 1
  show ?case by simp
next
  case (2 p v)
  then show ?case by (simp add: parseLoop_declaration(2))
next
  case (3 p v y m)
  then show ?case by (simp add: parseLoop_declaration(1))
qed

lemma postcss_parse_serializeStyles:
  assumes "list_all (\<lambda>(p, v). plainProperty p \<and> plainValue v) m"
  shows "postcss_parse (serializeStyles m) = Inr (map (\<lambda>(p, v). Decl p v) m)"
  by (simp add: postcss_parse_def tokenize_serializeStyles [OF assms] parseLoop_stylesTokens [OF assms])

lemma Map_set_fresh: "k \<notin> fst ` set m \<Longrightarrow> Map_set m k v = m @ [(k, v)]"
  by (induction m) auto

lemma foldl_declarations_distinct:
  assumes "distinct (map fst (acc @ m))"
  shows "foldl (\<lambda>styles node. case node of Decl p v \<Rightarrow> Map_set styles p v | _ \<Rightarrow> styles)
           acc (map (\<lambda>(p, v). Decl p v) m) = acc @ m"
  using assms
proof (induction m arbitrary: acc)
  case Nil
  show ?case by simp
next
  case (Cons kv m)
  obtain k v where kv: "kv = (k, v)" by (cases kv)
  from Cons.prems have fresh: "k \<notin> fst ` set acc"
    by (auto simp: kv)
  from Cons.prems have "distinct (map fst ((acc @ [(k, v)]) @ m))"
    by (simp add: kv)
  from Cons.IH [OF this] show ?case
    by (simp add: kv Map_set_fresh [OF fresh])
qed

lemma rootDeclarations_distinct:
  "distinct (map fst m) \<Longrightarrow> rootDeclarations (map (\<lambda>(p, v). Decl p v) m) = m"
  using foldl_declarations_distinct [of "[]" m] by (simp add: rootDeclarations_def)

lemma tokenize_serializeStyles_rest:
  assumes "list_all (\<lambda>(p, v). plainProperty p \<and> plainValue v) m"
    and "rest = [] \<or> hd rest = CHR '';''"
  shows "\<exists>buffer'. tokenize buffer (serializeStyles m @ rest)
           = foldr emit (stylesTokens m) (tokenize buffer' rest)"
  using assms(1)
proof (induction m arbitrary: buffer rule: stylesTokens.induct)
  case 1
  show ?case by (auto simp: serializeStyles_def)
next
  case (2 p v)
  then show ?case
    using tokenize_declaration [of p v rest buffer] assms(2) by (simp add: serializeStyles_def)
next
  case (3 p v y m)
  let ?rest = "serializeStyles (y # m) @ rest"
  from 3 obtain b1 where "tokenize buffer (Declaration_toString p v @ CHR '';'' # ?rest)
      = foldr emit (declTokens p v) (tokenize b1 (CHR '';'' # ?rest))"
    using tokenize_declaration [of p v "CHR '';'' # ?rest" buffer] by auto
  moreover from 3 obtain b2 where "tokenize b1 ?rest = foldr emit (stylesTokens (y # m)) (tokenize b2 rest)"
    by fastforce
  ultimately have "tokenize buffer (serializeStyles ((p, v) # y # m) @ rest)
      = foldr emit (stylesTokens ((p, v) # y # m)) (tokenize b2 rest)"
    by (simp add: serializeStyles_def tokenize_punctuation)
  then show ?case by blast
qed

lemma foldr_emit_append: "foldr emit (xs @ ys) r = foldr emit xs (foldr emit ys r)"
  by simp

lemma parseLoop_semicolon: "parseLoop 0 ((Semicolon, s) # rest) = parseLoop 0 rest"
  by (simp add: parseLoop.simps(2))

lemma parseLoop_stylesTokens_rest:
  assumes "list_all (\<lambda>(p, v). plainProperty p \<and> plainValue v) m"
  shows "parseLoop 0 (stylesTokens m @ (Semicolon, s) # rest)
         = foldr emit (map (\<lambda>(p, v). Decl p v) m) (parseLoop 0 rest)"
  using assms
proof (induction m rule: stylesTokens.induct)
  case 1
  show ?case by (simp add: parseLoop_semicolon)
next
  case (2 p v)
  then show ?case by (simp add: parseLoop_declaration(1))
next
  case (3 p v y m)
  then show ?case by (simp add: parseLoop_declaration(1))
qed

lemma parseLoop_no_colon:
  assumes "rest = [] \<or> fst (hd rest) = Semicolon"
  shows "parseLoop 0 ((Word, w) # rest) = Inl CssSyntaxError"
  using assms by (cases rest) (auto simp: parseLoop.simps(2) other_def)

lemma trim_trimmed:
  assumes "s \<noteq> []" and "\<not> is_js_whitespace (hd s)" and "\<not> is_js_whitespace (last s)"
  shows "trim s = s"
proof -
  have "dropWhile is_js_whitespace s = s"
    using assms(1,2) by (cases s) auto
  moreover have "dropWhile is_js_whitespace (rev s) = rev s"
    using assms(1,3) by (cases "rev s") (auto simp: hd_rev dest!: arg_cong[where f=hd])
  ultimately show ?thesis
    by (simp add: trim_def)
qed

lemma join_trimmed:
  assumes "segments \<noteq> []" and "list_all trimmed segments"
  shows "trimmed (join segments sep)"
  using assms
proof (induction segments sep rule: join.induct)
  case (1 sep)
  then show ?case by simp
next
  case (2 x sep)
  then show ?case by simp
next
  case (3 x y xs sep)
  then have "trimmed x" and "trimmed (join (y # xs) sep)"
    by simp_all
  then show ?case
    by (simp add: trimmed_def)
qed

lemma plainChar_not_whitespace: "plainChar c \<Longrightarrow> \<not> is_js_whitespace c"
  by (simp add: plainChar_def)

lemma plainWord_trimmed:
  assumes "plainWord w"
  shows "trimmed w"
proof -
  from assms have "w \<noteq> []" and all: "\<forall>c \<in> set w. plainChar c"
    by (simp_all add: plainWord_def list_all_iff)
  then have "plainChar (hd w)" and "plainChar (last w)"
    by simp_all
  with \<open>w \<noteq> []\<close> show ?thesis
    by (simp add: trimmed_def plainChar_not_whitespace)
qed

lemma Declaration_toString_trimmed:
  assumes "plainProperty p" and "plainValue v"
  shows "trimmed (Declaration_toString p v)"
proof -
  from assms(1) have p: "p \<noteq> []" "\<not> is_js_whitespace (hd p)"
    using plainWord_trimmed [of p] by (simp_all add: plainProperty_def trimmed_def)
  show ?thesis
  proof (cases "v = []")
    case True
    with p show ?thesis
      by (simp add: trimmed_def Declaration_toString_def is_js_whitespace_def)
  next
    case False
    with assms(2) have "trimmed v"
      by (simp add: plainValue_def plainWord_trimmed)
    with p show ?thesis
      by (simp add: trimmed_def Declaration_toString_def)
  qed
qed

lemma serializeStyles_trimmed:
  assumes "list_all (\<lambda>(p, v). plainProperty p \<and> plainValue v) m" and "m \<noteq> []"
  shows "trimmed (serializeStyles m)"
proof -
  have "list_all trimmed (map (\<lambda>(p, v). Declaration_toString p v) m)"
    using assms(1) by (induction m) (auto simp: Declaration_toString_trimmed)
  with assms(2) show ?thesis
    unfolding serializeStyles_def by (intro join_trimmed) simp_all
qed

lemma trim_serializeStyles:
  assumes "list_all (\<lambda>(p, v). plainProperty p \<and> plainValue v) m"
  shows "trim (serializeStyles m) = serializeStyles m"
proof (cases "m = []")
  case True
  then show ?thesis by (simp add: serializeStyles_def trim_def)
next
  case False
  with assms have "trimmed (serializeStyles m)"
    by (rule serializeStyles_trimmed)
  then show ?thesis
    by (simp add: trimmed_def trim_trimmed)
qed

lemma styleStringOf_setInlineStyles:
  "styleStringOf (setInlineStyles node m) = trim (serializeStyles m)"
  by (simp add: styleStringOf_def setInlineStyles_def setProperty_def map_of_Map_set)

theorem style_round_trip:
  assumes "plainStyles m"
  shows "getInlineStyles postcss_parse (setInlineStyles node m) = m"
proof -
  from assms have plain: "list_all (\<lambda>(p, v). plainProperty p \<and> plainValue v) m"
    and distinct: "distinct (map fst m)"
    by (simp_all add: plainStyles_def)
  have style: "styleStringOf (setInlineStyles node m) = serializeStyles m"
    by (simp add: styleStringOf_setInlineStyles trim_serializeStyles [OF plain])
  have unfold: "getInlineStyles postcss_parse (setInlineStyles node m)
      = (if serializeStyles m = [] then []
         else case postcss_parse (serializeStyles m) of
                Inl error \<Rightarrow> [] | Inr nodes \<Rightarrow> rootDeclarations nodes)"
    by (simp add: getInlineStyles_def style)
  show ?thesis
  proof (cases "m = []")
    case True
    then show ?thesis
      unfolding unfold by (simp add: serializeStyles_def)
  next
    case False
    with plain have "serializeStyles m \<noteq> []"
      using serializeStyles_trimmed [of m] by (simp add: trimmed_def)
    then show ?thesis
      unfolding unfold
      by (simp add: postcss_parse_serializeStyles [OF plain] rootDeclarations_distinct [OF distinct])
  qed
qed

lemma join_append:
  "xs \<noteq> [] \<Longrightarrow> ys \<noteq> [] \<Longrightarrow> join (xs @ ys) sep = join xs sep @ sep @ join ys sep"
proof (induction xs sep rule: join.induct)
  case (1 sep)
  then show ?case by simp
next
  case (2 x sep)
  then show ?case by (cases ys) simp_all
next
  case (3 x y xs sep)
  then show ?case by simp
qed

lemma postcss_parse_malformed:
  assumes before: "list_all (\<lambda>(p, v). plainProperty p \<and> plainValue v) before"
    and after: "list_all (\<lambda>(p, v). plainProperty p \<and> plainValue v) after"
    and malformed: "plainWord malformed"
  shows "postcss_parse
           ((if before = [] then [] else serializeStyles before @ '';'') @ malformed
            @ (if after = [] then [] else '';'' @ serializeStyles after))
         = Inl CssSyntaxError"
proof -
  let ?post = "if after = [] then [] else '';'' @ serializeStyles after"
  let ?postTokens = "if after = [] then [] else (Semicolon, '';'') # stylesTokens after"
  have post: "tokenize buffer ?post = Inr ?postTokens" for buffer
    using tokenize_serializeStyles [OF after] by (simp add: tokenize_punctuation)
  have post_start: "?post = [] \<or> is_word_end_char (hd ?post)"
    by (simp add: is_word_end_char_def)
  have word: "tokenize buffer (malformed @ ?post) = Inr ((Word, malformed) # ?postTokens)" for buffer
    using tokenize_plainWord [OF malformed post_start, of buffer] post by simp
  have bad: "parseLoop 0 ((Word, malformed) # ?postTokens) = Inl CssSyntaxError"
    by (rule parseLoop_no_colon) simp
  show ?thesis
  proof (cases "before = []")
    case True
    then show ?thesis
      using word [of "[]"] bad by (simp add: postcss_parse_def)
  next
    case False
    obtain buffer' where "tokenize [] (serializeStyles before @ CHR '';'' # malformed @ ?post)
        = foldr emit (stylesTokens before) (tokenize buffer' (CHR '';'' # malformed @ ?post))"
      using tokenize_serializeStyles_rest [OF before, of "CHR '';'' # malformed @ ?post" "[]"] by auto
    then have "tokenize [] (serializeStyles before @ CHR '';'' # malformed @ ?post)
        = Inr (stylesTokens before @ (Semicolon, '';'') # (Word, malformed) # ?postTokens)"
      using word [of buffer'] by (simp add: tokenize_punctuation)
    moreover have "parseLoop 0 (stylesTokens before @ (Semicolon, '';'') # (Word, malformed) # ?postTokens)
        = Inl CssSyntaxError"
      using parseLoop_stylesTokens_rest [OF before] bad by simp
    ultimately show ?thesis
      using False by (simp add: postcss_parse_def)
  qed
qed

lemma declarationList_malformed:
  "declarationList (map (\<lambda>(p, v). Declaration_toString p v) before @ [malformed]
      @ map (\<lambda>(p, v). Declaration_toString p v) after)
   = (if before = [] then [] else serializeStyles before @ '';'') @ malformed
      @ (if after = [] then [] else '';'' @ serializeStyles after)"
proof -
  have tail: "join ([malformed] @ ys) '';'' = malformed @ (if ys = [] then [] else '';'' @ join ys '';'')"
    for ys
    by (cases ys) simp_all
  show ?thesis
  proof (cases "before = []")
    case True
    then show ?thesis
      using tail [of "map (\<lambda>(p, v). Declaration_toString p v) after"]
      by (simp add: declarationList_def serializeStyles_def)
  next
    case False
    then show ?thesis
      using tail [of "map (\<lambda>(p, v). Declaration_toString p v) after"]
        join_append [of "map (\<lambda>(p, v). Declaration_toString p v) before"
          "[malformed] @ map (\<lambda>(p, v). Declaration_toString p v) after" "'';''"]
      by (simp add: declarationList_def serializeStyles_def)
  qed
qed

theorem malformed_declaration_fatal:
  assumes "list_all (\<lambda>(p, v). plainProperty p \<and> plainValue v) before"
    and "list_all (\<lambda>(p, v). plainProperty p \<and> plainValue v) after"
    and "plainWord malformed"
    and "properties node = Some ps"
    and "map_of ps ''style'' = Some (PString (declarationList
          (map (\<lambda>(p, v). Declaration_toString p v) before @ [malformed]
           @ map (\<lambda>(p, v). Declaration_toString p v) after)))"
  shows "getInlineStyles postcss_parse node = []"
proof -
  let ?segments = "map (\<lambda>(p, v). Declaration_toString p v) before @ [malformed]
           @ map (\<lambda>(p, v). Declaration_toString p v) after"
  have "list_all trimmed (map (\<lambda>(p, v). Declaration_toString p v) m)"
    if "list_all (\<lambda>(p, v). plainProperty p \<and> plainValue v) m" for m
    using that by (induction m) (auto simp: Declaration_toString_trimmed)
  with assms(1-3) have "list_all trimmed ?segments"
    by (simp add: plainWord_trimmed)
  then have "trimmed (declarationList ?segments)"
    unfolding declarationList_def by (intro join_trimmed) simp_all
  then have "styleStringOf node = declarationList ?segments" and "declarationList ?segments \<noteq> []"
    using assms(4,5) by (simp_all add: styleStringOf_def trim_trimmed trimmed_def)
  moreover have "postcss_parse (declarationList ?segments) = Inl CssSyntaxError"
    unfolding declarationList_malformed using assms(1-3) by (rule postcss_parse_malformed)
  ultimately show ?thesis
    by (simp add: getInlineStyles_def)
qed

end
